theory Spec2Isabelle
  imports Main "HOL-Library.Sublist"
begin

section \<open>Strings, file names and the extension table\<close>

text \<open>
  File names are \<open>string\<close>s. \<^verbatim>\<open>str.lower()\<close> is modelled on the ASCII letters
  (\<open>A\<close>..\<open>Z\<close> become \<open>a\<close>..\<open>z\<close>); every other character is left as it is.
\<close>

definition char_lower :: "char \<Rightarrow> char" where
  "char_lower c =
     (let n = (of_char c :: nat) in if 65 \<le> n \<and> n \<le> 90 then char_of (n + 32) else c)"

definition lower :: "string \<Rightarrow> string" where
  "lower s = map char_lower s"

text \<open>
  \<^verbatim>\<open>str.rfind(c)\<close>: the highest index at which \<open>c\<close> occurs, or \<open>-1\<close>.
\<close>

fun rfind :: "string \<Rightarrow> char \<Rightarrow> int" where
  "rfind [] c = -1"
| "rfind (x # xs) c =
     (let r = rfind xs c in
      if r \<noteq> -1 then r + 1 else if x = c then 0 else -1)"

text \<open>
  \<^verbatim>\<open>PurePath.suffix\<close> (pathlib up to Python 3.13):
  \<^verbatim>\<open>
    name = self.name
    i = name.rfind('.')
    if 0 < i < len(name) - 1: return name[i:]
    else: return ''
  \<close>
\<close>

definition suffix_of :: "string \<Rightarrow> string" where
  "suffix_of name =
     (let i = rfind name (CHR ''.'') in
      if 0 < i \<and> i < int (length name) - 1 then drop (nat i) name else [])"

text \<open>
  The module constant \<^verbatim>\<open>EXTENSIONS\<close>. A Python dict iterates in insertion order, so
  the table is an association list in the order of the source.
\<close>

definition EXTENSIONS :: "(string \<times> string list) list" where
  "EXTENSIONS =
    [(''images'', [''.jpg'', ''.jpeg'', ''.png'', ''.gif'', ''.bmp'', ''.tiff'', ''.webp'', ''.svg'', ''.ico'']),
     (''videos'', [''.mp4'', ''.avi'', ''.mkv'', ''.mov'', ''.wmv'', ''.flv'', ''.webm'', ''.m4v'', ''.3gp'']),
     (''documents'', [''.pdf'', ''.doc'', ''.docx'', ''.txt'', ''.xlsx'', ''.ppt'', ''.pptx'', ''.csv'', ''.odt'']),
     (''music'', [''.mp3'', ''.wav'', ''.flac'', ''.m4a'', ''.ogg'', ''.midi'', ''.aac'', ''.wma'']),
     (''programs'', [''.exe'', ''.msi'', ''.app'', ''.bat'', ''.cmd'', ''.py'', ''.jar'', ''.dll'']),
     (''compressed'', [''.zip'', ''.rar'', ''.7z'', ''.tar'', ''.gz'', ''.bz2'', ''.xz'', ''.iso'']),
     (''others'', [])]"

text \<open>
  The classification loop of \<^verbatim>\<open>organize_file\<close> (lines 81-85):
  \<^verbatim>\<open>
    category = 'others'
    for cat, extensions in EXTENSIONS.items():
        if file.suffix.lower() in extensions:
            category = cat
            break
  \<close>
  \<open>classify_loop\<close> is the loop over the remaining items of the table, \<open>classify\<close> the
  whole fragment as a function of the suffix.
\<close>

fun classify_loop :: "(string \<times> string list) list \<Rightarrow> string \<Rightarrow> string \<Rightarrow> string" where
  "classify_loop [] ext category = category"
| "classify_loop ((cat, extensions) # rest) ext category =
     (if lower ext \<in> set extensions then cat else classify_loop rest ext category)"

definition classify :: "string \<Rightarrow> string" where
  "classify ext = classify_loop EXTENSIONS ext ''others''"

section \<open>Paths and the file system\<close>

text \<open>
  A path is the list of its components (\<^verbatim>\<open>PurePath.parts\<close>), so \<^verbatim>\<open>str(path)\<close> and
  \<^verbatim>\<open>Path(string)\<close> are the identity. \<open>name_of\<close> is \<^verbatim>\<open>Path.name\<close> (and
  \<^verbatim>\<open>os.path.basename\<close>), \<open>joinpath\<close> the \<^verbatim>\<open>/\<close> operator, \<open>parent\<close> is
  \<^verbatim>\<open>Path.parent\<close>.
\<close>

type_synonym path = "string list"

definition name_of :: "path \<Rightarrow> string" where
  "name_of p = (if p = [] then [] else last p)"

definition joinpath :: "path \<Rightarrow> string \<Rightarrow> path" where
  "joinpath p s = (if s = [] then p else p @ [s])"

definition parent :: "path \<Rightarrow> path" where
  "parent p = butlast p"

definition is_child :: "path \<Rightarrow> path \<Rightarrow> bool" where
  "is_child d p = (p \<noteq> [] \<and> butlast p = d \<and> last p \<noteq> [])"

text \<open>
  The file system holds regular files (with the \<^verbatim>\<open>st_ctime\<close> that \<^verbatim>\<open>stat()\<close> reports, as a
  \<^verbatim>\<open>datetime\<close> in microseconds, and their contents) and directories, in the order in
  which a directory listing yields them. There are no symbolic links, one device, and no
  permission or quota failures: an operation fails only for the shape of the tree.
\<close>

datatype node = File (st_ctime: int) (content: string) | Dir

type_synonym filesystem = "(path \<times> node) list"

definition lookup :: "filesystem \<Rightarrow> path \<Rightarrow> node option" where
  "lookup fs p = map_of fs p"

definition exists_path :: "filesystem \<Rightarrow> path \<Rightarrow> bool" where
  "exists_path fs p = (lookup fs p \<noteq> None)"

definition is_dir :: "filesystem \<Rightarrow> path \<Rightarrow> bool" where
  "is_dir fs p = (lookup fs p = Some Dir)"

definition is_file :: "filesystem \<Rightarrow> path \<Rightarrow> bool" where
  "is_file fs p = (case lookup fs p of Some (File t c) \<Rightarrow> True | _ \<Rightarrow> False)"

text \<open>\<^verbatim>\<open>Path(d).glob('*')\<close>: the direct children of a directory, in listing order.\<close>

definition glob_star :: "filesystem \<Rightarrow> path \<Rightarrow> path list" where
  "glob_star fs d = (if is_dir fs d then filter (is_child d) (map fst fs) else [])"

datatype io_error =
  FileExistsError | FileNotFoundError | NotADirectoryError | IsADirectoryError | ShutilError

text \<open>
  \<^verbatim>\<open>Path.mkdir(exist_ok=True)\<close> (with \<^verbatim>\<open>parents=False\<close>): an existing directory is
  accepted, an existing regular file raises \<^verbatim>\<open>FileExistsError\<close>, a missing parent raises
  \<^verbatim>\<open>FileNotFoundError\<close>.
\<close>

definition mkdir_exist_ok :: "filesystem \<Rightarrow> path \<Rightarrow> io_error + filesystem" where
  "mkdir_exist_ok fs d =
     (case lookup fs d of
        Some Dir \<Rightarrow> Inr fs
      | Some (File t c) \<Rightarrow> Inl FileExistsError
      | None \<Rightarrow>
          (case lookup fs (parent d) of
             Some Dir \<Rightarrow> Inr (fs @ [(d, Dir)])
           | Some (File t c) \<Rightarrow> Inl NotADirectoryError
           | None \<Rightarrow> Inl FileNotFoundError))"

text \<open>
  Renaming \<open>src\<close> to \<open>dst\<close>: every entry at or below \<open>src\<close> moves to the same place at or
  below \<open>dst\<close>, and whatever was at or below \<open>dst\<close> before is gone.
\<close>

definition rekey :: "filesystem \<Rightarrow> path \<Rightarrow> path \<Rightarrow> filesystem" where
  "rekey fs src dst =
     map (\<lambda>(k, n). (dst @ drop (length src) k, n)) (filter (\<lambda>(k, n). prefix src k) fs) @
     filter (\<lambda>(k, n). \<not> prefix src k \<and> \<not> prefix dst k) fs"

text \<open>
  \<^verbatim>\<open>os.rename(src, dst)\<close> as \<^verbatim>\<open>shutil.move\<close> uses it, together with the copy-and-delete
  fallback that \<^verbatim>\<open>shutil.move\<close> runs when the rename raises \<^verbatim>\<open>OSError\<close>. On one device the
  fallback fails for the reason the rename failed, so the error is the result. A regular
  file replaces an existing regular file at \<open>dst\<close> (POSIX \<^verbatim>\<open>rename\<close>; on Windows the rename
  raises and the fallback \<^verbatim>\<open>copy2\<close> overwrites \<open>dst\<close>, then deletes \<open>src\<close>: the same
  result). \<^verbatim>\<open>shutil.move\<close> never asks for a rename onto an existing directory (see
  \<open>shutil_move\<close>); that branch and the branch of a missing parent are given the error of
  the system call.
\<close>

definition os_rename :: "filesystem \<Rightarrow> path \<Rightarrow> path \<Rightarrow> io_error + filesystem" where
  "os_rename fs src dst =
     (case lookup fs src of
        None \<Rightarrow> Inl FileNotFoundError
      | Some n \<Rightarrow>
          if src = dst then Inr fs
          else
            (case lookup fs (parent dst) of
               None \<Rightarrow> Inl FileNotFoundError
             | Some (File t c) \<Rightarrow> Inl NotADirectoryError
             | Some Dir \<Rightarrow>
                 (case lookup fs dst of
                    Some Dir \<Rightarrow> Inl IsADirectoryError
                  | Some (File t c) \<Rightarrow>
                      (if n = Dir then Inl NotADirectoryError else Inr (rekey fs src dst))
                  | None \<Rightarrow>
                      (if n = Dir \<and> strict_prefix src dst then Inl ShutilError
                       else Inr (rekey fs src dst)))))"

text \<open>
  \<^verbatim>\<open>shutil.move(src, dst)\<close>:
  \<^verbatim>\<open>
    real_dst = dst
    if os.path.isdir(dst):
        if _samefile(src, dst): os.rename(src, dst); return
        real_dst = os.path.join(dst, _basename(src))
        if os.path.exists(real_dst): raise Error("Destination path ... already exists")
    try: os.rename(src, real_dst)
    except OSError: ... copy, then delete the source ...
  \<close>
\<close>

definition shutil_move :: "filesystem \<Rightarrow> path \<Rightarrow> path \<Rightarrow> io_error + filesystem" where
  "shutil_move fs src dst =
     (if is_dir fs dst then
        (if src = dst then os_rename fs src dst
         else
           let real_dst = joinpath dst (name_of src) in
           if exists_path fs real_dst then Inl ShutilError else os_rename fs src real_dst)
      else os_rename fs src dst)"

section \<open>The organizer\<close>

text \<open>
  A \<^verbatim>\<open>datetime\<close> is its number of microseconds, a \<^verbatim>\<open>timedelta\<close> a difference of two.
\<close>

definition timedelta_hours :: "int \<Rightarrow> int" where
  "timedelta_hours h = h * 3600000000"

text \<open>The guard of line 66: the entry has been pending for 24 hours.\<close>

definition aged :: "int \<Rightarrow> path \<times> int \<Rightarrow> bool" where
  "aged current_time item = (current_time - snd item \<ge> timedelta_hours 24)"

text \<open>
  \<^verbatim>\<open>self.pending_files\<close> is a Python dict: an association list in insertion order.
  \<open>dict_set\<close> is \<^verbatim>\<open>d[k] = v\<close> (an existing key keeps its place and takes the new value, a
  new key goes last), \<open>dict_del\<close> is \<^verbatim>\<open>del d[k]\<close>, which raises \<^verbatim>\<open>KeyError\<close> (\<open>None\<close>)
  for a missing key.
\<close>

fun dict_set :: "'k \<Rightarrow> 'v \<Rightarrow> ('k \<times> 'v) list \<Rightarrow> ('k \<times> 'v) list" where
  "dict_set k v [] = [(k, v)]"
| "dict_set k v ((k', v') # d) =
     (if k' = k then (k, v) # d else (k', v') # dict_set k v d)"

fun dict_del :: "'k \<Rightarrow> ('k \<times> 'v) list \<Rightarrow> ('k \<times> 'v) list option" where
  "dict_del k [] = None"
| "dict_del k ((k', v') # d) =
     (if k' = k then Some d else map_option (\<lambda>r. (k', v') # r) (dict_del k d))"

definition dict_get :: "('k \<times> 'v) list \<Rightarrow> 'k \<Rightarrow> 'v option" where
  "dict_get d k = map_of d k"

definition dict_ok :: "('k \<times> 'v) list \<Rightarrow> bool" where
  "dict_ok d = distinct (map fst d)"

datatype log_entry =
  LogStarted path
  | LogProcessingExisting
  | LogAddedExisting string
  | LogNewFile string
  | LogOrganized string string
  | LogError path io_error

datatype exception = KeyError path

text \<open>
  The state the methods of \<^verbatim>\<open>FileOrganizer\<close> act on: the two attributes of the object,
  and the file system and the log file they read and write.
\<close>

record organizer =
  downloads_path :: path
  pending_files :: "(path \<times> int) list"
  disk :: filesystem
  logfile :: "log_entry list"

text \<open>\<^verbatim>\<open>organize_file\<close> (lines 74-96). Every exception is caught and logged.\<close>

definition organize_file :: "path \<Rightarrow> organizer \<Rightarrow> organizer" where
  "organize_file file_path s =
     (if \<not> exists_path (disk s) file_path then s
      else
        let category = classify (suffix_of (name_of file_path));
            dest_folder = joinpath (downloads_path s) category
        in
          (case mkdir_exist_ok (disk s) dest_folder of
             Inl e \<Rightarrow> s\<lparr>logfile := logfile s @ [LogError file_path e]\<rparr>
           | Inr fs1 \<Rightarrow>
               (case shutil_move fs1 file_path (joinpath dest_folder (name_of file_path)) of
                  Inl e \<Rightarrow> s\<lparr>disk := fs1, logfile := logfile s @ [LogError file_path e]\<rparr>
                | Inr fs2 \<Rightarrow>
                    s\<lparr>disk := fs2,
                      logfile := logfile s @ [LogOrganized (name_of file_path) category]\<rparr>)))"

text \<open>
  \<^verbatim>\<open>process_pending_files\<close> (lines 60-72). \<open>sweep_loop\<close> is the first loop, over the items
  of the dict, carrying the state and \<^verbatim>\<open>files_to_remove\<close>; \<open>remove_loop\<close> is the second.
\<close>

fun sweep_loop ::
  "int \<Rightarrow> (path \<times> int) list \<Rightarrow> organizer \<Rightarrow> path list \<Rightarrow> organizer \<times> path list" where
  "sweep_loop current_time [] s files_to_remove = (s, files_to_remove)"
| "sweep_loop current_time ((file_path, creation_time) # items) s files_to_remove =
     (if current_time - creation_time \<ge> timedelta_hours 24
      then sweep_loop current_time items (organize_file file_path s)
             (files_to_remove @ [file_path])
      else sweep_loop current_time items s files_to_remove)"

fun remove_loop :: "path list \<Rightarrow> (path \<times> int) list \<Rightarrow> exception + (path \<times> int) list" where
  "remove_loop [] d = Inr d"
| "remove_loop (file_path # rest) d =
     (case dict_del file_path d of
        None \<Rightarrow> Inl (KeyError file_path)
      | Some d' \<Rightarrow> remove_loop rest d')"

definition process_pending_files :: "int \<Rightarrow> organizer \<Rightarrow> exception + organizer" where
  "process_pending_files current_time s =
     (case sweep_loop current_time (pending_files s) s [] of
        (s1, files_to_remove) \<Rightarrow>
          (case remove_loop files_to_remove (pending_files s1) of
             Inl e \<Rightarrow> Inl e
           | Inr d \<Rightarrow> Inr (s1\<lparr>pending_files := d\<rparr>)))"

text \<open>
  The paths \<^verbatim>\<open>organize_file\<close> is called on by a sweep: the final value of
  \<^verbatim>\<open>files_to_remove\<close>, to which a path is appended exactly when the call is made.
\<close>

definition organized_paths :: "int \<Rightarrow> organizer \<Rightarrow> path list" where
  "organized_paths current_time s = snd (sweep_loop current_time (pending_files s) s [])"

text \<open>\<^verbatim>\<open>on_created\<close> (lines 53-58); \<open>now\<close> is the value of \<^verbatim>\<open>datetime.now()\<close>.\<close>

record event =
  is_directory :: bool
  src_path :: path

definition on_created :: "int \<Rightarrow> event \<Rightarrow> organizer \<Rightarrow> organizer" where
  "on_created now ev s =
     (if \<not> is_directory ev
      then s\<lparr>pending_files := dict_set (src_path ev) now (pending_files s),
             logfile := logfile s @ [LogNewFile (name_of (src_path ev))]\<rparr>
      else s)"

text \<open>\<^verbatim>\<open>process_existing_files\<close> (lines 42-51) and \<^verbatim>\<open>__init__\<close> (lines 36-40).\<close>

fun scan_loop :: "path list \<Rightarrow> organizer \<Rightarrow> organizer" where
  "scan_loop [] s = s"
| "scan_loop (file_path # rest) s =
     (case lookup (disk s) file_path of
        Some (File creation_time c) \<Rightarrow>
          scan_loop rest
            (s\<lparr>pending_files := dict_set file_path creation_time (pending_files s),
               logfile := logfile s @ [LogAddedExisting (name_of file_path)]\<rparr>)
      | _ \<Rightarrow> scan_loop rest s)"

definition process_existing_files :: "organizer \<Rightarrow> organizer" where
  "process_existing_files s =
     scan_loop (glob_star (disk s) (downloads_path s)) (s\<lparr>logfile := logfile s @ [LogProcessingExisting]\<rparr>)"

definition init :: "path \<Rightarrow> filesystem \<Rightarrow> log_entry list \<Rightarrow> organizer" where
  "init downloads fs0 log0 =
     process_existing_files
       \<lparr>downloads_path = downloads, pending_files = [], disk = fs0,
        logfile = log0 @ [LogStarted downloads]\<rparr>"

text \<open>
  The states an execution of \<^verbatim>\<open>main\<close> can be in when a sweep or a notification starts.
  The object is built by \<^verbatim>\<open>__init__\<close>; the observer, scheduled on \<^verbatim>\<open>downloads_path\<close>
  with \<^verbatim>\<open>recursive=False\<close> (line 127), calls \<^verbatim>\<open>on_created\<close> for paths directly under the
  watched directory; the loop of \<^verbatim>\<open>main\<close> calls \<^verbatim>\<open>process_pending_files\<close>; and between
  two calls anything outside the program may change the files.
\<close>

inductive reachable :: "organizer \<Rightarrow> bool" where
  start: "reachable (init downloads fs0 log0)"
| notify: "reachable s \<Longrightarrow> is_child (downloads_path s) (src_path ev) \<Longrightarrow>
           reachable (on_created now ev s)"
| sweep: "reachable s \<Longrightarrow> process_pending_files now s = Inr s' \<Longrightarrow> reachable s'"
| outside: "reachable s \<Longrightarrow> reachable (s\<lparr>disk := fs'\<rparr>)"

text \<open>
  What holds of the registry in every state the program reaches: no path is queued twice,
  and every queued path is directly under the watched directory.
\<close>

definition registry_inv :: "organizer \<Rightarrow> bool" where
  "registry_inv s = (dict_ok (pending_files s) \<and>
            (\<forall>q \<in> fst ` set (pending_files s). is_child (downloads_path s) q))"


section \<open>Example states\<close>

text \<open>
  The scenario of the specification: at startup the watched directory holds
  \<open>report.PDF\<close>, created 25 hours ago, and \<open>photo.png\<close>, created 1 hour ago. Time 0 is the
  creation of \<open>report.PDF\<close>; the program starts, and sweeps, at hour 25.
\<close>

definition ex_downloads :: path where
  "ex_downloads = [''home'', ''user'', ''Downloads'']"

definition ex_report :: path where
  "ex_report = [''home'', ''user'', ''Downloads'', ''report.PDF'']"

definition ex_photo :: path where
  "ex_photo = [''home'', ''user'', ''Downloads'', ''photo.png'']"

definition ex_disk :: filesystem where
  "ex_disk =
     [(ex_downloads, Dir),
      (ex_report, File 0 ''pdf''),
      (ex_photo, File (timedelta_hours 24) ''png'')]"

definition ex_start :: organizer where
  "ex_start = init ex_downloads ex_disk []"

text \<open>
  The same directory with a regular file named \<open>documents\<close>, one hour old, where the
  category folder of \<open>report.PDF\<close> would be.
\<close>

definition ex_blocked_disk :: filesystem where
  "ex_blocked_disk =
     [(ex_downloads, Dir),
      (ex_report, File 0 ''pdf''),
      ([''home'', ''user'', ''Downloads'', ''documents''], File (timedelta_hours 24) ''notes'')]"

definition ex_blocked :: organizer where
  "ex_blocked = init ex_downloads ex_blocked_disk []"



text \<open>
  The directory from which \<open>report.PDF\<close> has been deleted after the startup scan
  queued it.
\<close>

definition ex_vanished :: organizer where
  "ex_vanished = ex_start\<lparr>disk := [(ex_downloads, Dir), (ex_photo, File (timedelta_hours 24) ''png'')]\<rparr>"

text \<open>A second creation notification for \<open>photo.png\<close>, at hour 26.\<close>

definition ex_event :: event where
  "ex_event = \<lparr>is_directory = False, src_path = ex_photo\<rparr>"

section \<open>Auxiliary facts\<close>

subsection \<open>Classifier\<close>




lemma classify_loop_range: "classify_loop tbl ext c \<in> insert c (fst ` set tbl)"
  by (induction tbl ext c rule: classify_loop.induct) auto


lemma categories: "fst ` set EXTENSIONS =
  {''images'', ''videos'', ''documents'', ''music'', ''programs'', ''compressed'', ''others''}"
  by (simp add: EXTENSIONS_def)

lemma classify_range: "classify ext \<in> fst ` set EXTENSIONS"
  using classify_loop_range [of EXTENSIONS ext "''others''"]
  by (auto simp: classify_def categories)

lemma classify_nonempty: "classify ext \<noteq> []"
  using classify_range [of ext] by (auto simp: categories)




subsection \<open>rfind and suffix\<close>

lemma rfind_none: "c \<notin> set xs \<Longrightarrow> rfind xs c = -1"
  by (induction xs) (auto simp: Let_def)

lemma rfind_last: "c \<notin> set ys \<Longrightarrow> rfind (xs @ c # ys) c = int (length xs)"
  by (induction xs) (auto simp: Let_def rfind_none)

lemma suffix_of_last_dot:
  assumes "stem \<noteq> []" "CHR ''.'' \<notin> set ext"
  shows "suffix_of (stem @ CHR ''.'' # ext) = (if ext = [] then [] else CHR ''.'' # ext)"
  using assms by (auto simp: suffix_of_def rfind_last Let_def)

lemma classify_dot: "classify ''.'' = classify []"
  by code_simp

subsection \<open>Dictionaries\<close>

lemma dict_set_keys: "fst ` set (dict_set k v d) = insert k (fst ` set d)"
  by (induction k v d rule: dict_set.induct) (auto simp: image_iff)

lemma dict_set_ok: "dict_ok d \<Longrightarrow> dict_ok (dict_set k v d)"
  unfolding dict_ok_def
proof (induction d)
  case Nil
  then show ?case by simp
next
  case (Cons a d)
  obtain k' v' where a: "a = (k', v')" by (cases a)
  have "k' \<noteq> k \<Longrightarrow> k' \<notin> fst ` set (dict_set k v d)"
    using Cons.prems by (simp add: dict_set_keys a)
  with Cons show ?case by (auto simp: a)
qed

lemma dict_get_set: "dict_get (dict_set k v d) q = (if q = k then Some v else dict_get d q)"
  by (induction d) (auto simp: dict_get_def)

lemma dict_set_present_keys:
  "k \<in> fst ` set d \<Longrightarrow> map fst (dict_set k v d) = map fst d"
  by (induction k v d rule: dict_set.induct) (auto simp: image_iff)

lemma dict_del_filter:
  "dict_ok d \<Longrightarrow> k \<in> fst ` set d \<Longrightarrow> dict_del k d = Some (filter (\<lambda>kv. fst kv \<noteq> k) d)"
proof (induction d)
  case Nil
  then show ?case by simp
next
  case (Cons a d)
  obtain k' v' where a: "a = (k', v')" by (cases a)
  show ?case
  proof (cases "k' = k")
    case True
    with Cons.prems have "\<forall>kv \<in> set d. fst kv \<noteq> k" by (auto simp: a dict_ok_def)
    then have "filter (\<lambda>kv. fst kv \<noteq> k) d = d" by (simp add: filter_id_conv)
    with True show ?thesis by (simp add: a)
  next
    case False
    with Cons show ?thesis by (auto simp: a dict_ok_def)
  qed
qed

lemma dict_ok_filter: "dict_ok d \<Longrightarrow> dict_ok (filter P d)"
  by (simp add: dict_ok_def distinct_map_filter)

lemma remove_loop_filter:
  "dict_ok d \<Longrightarrow> distinct ps \<Longrightarrow> set ps \<subseteq> fst ` set d \<Longrightarrow>
   remove_loop ps d = Inr (filter (\<lambda>kv. fst kv \<notin> set ps) d)"
proof (induction ps arbitrary: d)
  case Nil
  then show ?case by simp
next
  case (Cons p ps)
  let ?d' = "filter (\<lambda>kv. fst kv \<noteq> p) d"
  have del: "dict_del p d = Some ?d'"
    using Cons.prems by (simp add: dict_del_filter)
  have ok: "dict_ok ?d'" using Cons.prems(1) by (rule dict_ok_filter)
  have sub: "set ps \<subseteq> fst ` set ?d'"
  proof
    fix x assume x: "x \<in> set ps"
    with Cons.prems(3) obtain kv where "kv \<in> set d" "fst kv = x" by auto
    moreover from x Cons.prems(2) have "x \<noteq> p" by auto
    ultimately show "x \<in> fst ` set ?d'" by force
  qed
  have "remove_loop ps ?d' = Inr (filter (\<lambda>kv. fst kv \<notin> set ps) ?d')"
    using Cons.IH [OF ok _ sub] Cons.prems(2) by simp
  moreover have "filter (\<lambda>kv. fst kv \<notin> set ps) ?d' = filter (\<lambda>kv. fst kv \<notin> set (p # ps)) d"
    by (auto intro: filter_cong)
  ultimately show ?case using del by simp
qed

subsection \<open>The sweep\<close>

lemma organize_file_pending: "pending_files (organize_file p s) = pending_files s"
  by (simp add: organize_file_def Let_def split: sum.splits)

lemma organize_file_downloads: "downloads_path (organize_file p s) = downloads_path s"
  by (simp add: organize_file_def Let_def split: sum.splits)

lemma sweep_loop_eq:
  "sweep_loop now items s acc =
     (fold organize_file (map fst (filter (aged now) items)) s,
      acc @ map fst (filter (aged now) items))"
  by (induction items arbitrary: s acc) (auto simp: aged_def)

lemma fold_organize_pending: "pending_files (fold organize_file ps s) = pending_files s"
  by (induction ps arbitrary: s) (simp_all add: organize_file_pending)

lemma fold_organize_downloads: "downloads_path (fold organize_file ps s) = downloads_path s"
  by (induction ps arbitrary: s) (simp_all add: organize_file_downloads)

lemma organized_paths_eq:
  "organized_paths now s = map fst (filter (aged now) (pending_files s))"
  by (simp add: organized_paths_def sweep_loop_eq)

lemma filter_not_organized:
  assumes "dict_ok d"
  shows "filter (\<lambda>kv. fst kv \<notin> set (map fst (filter (aged now) d))) d = filter (\<lambda>kv. \<not> aged now kv) d"
proof (rule filter_cong [OF refl])
  fix kv assume kv: "kv \<in> set d"
  show "(fst kv \<notin> set (map fst (filter (aged now) d))) = (\<not> aged now kv)"
  proof
    assume "fst kv \<notin> set (map fst (filter (aged now) d))"
    with kv show "\<not> aged now kv" by force
  next
    assume n: "\<not> aged now kv"
    show "fst kv \<notin> set (map fst (filter (aged now) d))"
    proof
      assume "fst kv \<in> set (map fst (filter (aged now) d))"
      then obtain kv' where kv': "kv' \<in> set d" "aged now kv'" "fst kv' = fst kv" by auto
      from assms kv kv'(1,3) have "kv' = kv"
        unfolding dict_ok_def
        using eq_key_imp_eq_value [of d "fst kv" "snd kv'" "snd kv"]
        by (cases kv, cases kv') auto
      with n kv'(2) show False by simp
    qed
  qed
qed

lemma process_pending_files_eq:
  assumes "dict_ok (pending_files s)"
  shows "process_pending_files now s =
     Inr ((fold organize_file (organized_paths now s) s)
            \<lparr>pending_files := filter (\<lambda>kv. \<not> aged now kv) (pending_files s)\<rparr>)"
proof -
  let ?ps = "map fst (filter (aged now) (pending_files s))"
  have d: "distinct ?ps" using assms by (simp add: dict_ok_def distinct_map_filter)
  have sub: "set ?ps \<subseteq> fst ` set (pending_files s)" by auto
  have "remove_loop ?ps (pending_files s) = Inr (filter (\<lambda>kv. fst kv \<notin> set ?ps) (pending_files s))"
    using assms d sub by (rule remove_loop_filter)
  then show ?thesis
    using filter_not_organized [OF assms, of now]
    by (simp add: process_pending_files_def sweep_loop_eq fold_organize_pending organized_paths_eq)
qed

subsection \<open>File system\<close>

lemma map_of_filter_key:
  "map_of (filter (\<lambda>(k, n). P k) tree) k = (if P k then map_of tree k else None)"
  by (induction tree) auto

lemma map_of_moved:
  "map_of (map (\<lambda>(k, n). (dst @ drop (length src) k, n)) (filter (\<lambda>(k, n). prefix src k) tree)) (dst @ r)
     = map_of tree (src @ r)"
proof (induction tree)
  case Nil
  then show ?case by simp
next
  case (Cons a tree)
  obtain k0 n0 where a: "a = (k0, n0)" by (cases a)
  show ?case
  proof (cases "prefix src k0")
    case True
    then obtain r0 where k0: "k0 = src @ r0" by (auto simp: prefix_def)
    with Cons show ?thesis by (auto simp: a)
  next
    case False
    then have "k0 \<noteq> src @ r" by auto
    with False Cons show ?thesis by (simp add: a)
  qed
qed

lemma map_of_moved_none:
  "\<not> prefix dst k \<Longrightarrow>
   map_of (map (\<lambda>(k, n). (dst @ drop (length src) k, n)) (filter (\<lambda>(k, n). prefix src k) tree)) k = None"
  by (induction tree) (auto)

lemma lookup_rekey:
  "lookup (rekey tree src dst) k =
     (if prefix dst k then lookup tree (src @ drop (length dst) k)
      else if prefix src k then None else lookup tree k)"
proof (cases "prefix dst k")
  case True
  then obtain r where k: "k = dst @ r" by (auto simp: prefix_def)
  show ?thesis
    by (simp add: lookup_def rekey_def map_add_def map_of_moved map_of_filter_key k
        split: option.splits)
next
  case False
  then show ?thesis
    by (simp add: lookup_def rekey_def map_add_def map_of_moved_none map_of_filter_key
        split: option.splits)
qed

lemma lookup_append_new:
  "lookup (tree @ [(d, n)]) k = (case lookup tree k of Some m \<Rightarrow> Some m | None \<Rightarrow> if k = d then Some n else None)"
  by (simp add: lookup_def map_add_def split: option.splits)

lemma mkdir_exist_ok_lookup:
  "mkdir_exist_ok tree d = Inr fs1 \<Longrightarrow>
   lookup fs1 d = Some Dir \<and> (\<forall>k. k \<noteq> d \<longrightarrow> lookup fs1 k = lookup tree k) \<and>
   (\<forall>k m. lookup tree k = Some m \<longrightarrow> lookup fs1 k = Some m)"
  by (auto simp: mkdir_exist_ok_def lookup_append_new split: option.splits node.splits)


lemma more_than_one_dot:
  assumes "1 < count_list name c"
  obtains stem ext where "name = stem @ c # ext" "c \<notin> set ext" "c \<in> set stem"
proof -
  from assms have "c \<in> set name" by (metis count_list_0_iff not_one_less_zero)
  then obtain ys zs where name: "name = ys @ c # zs" and zs: "c \<notin> set zs"
    by (auto dest: split_list_last)
  from zs have "count_list zs c = 0" by (simp add: count_list_0_iff)
  with assms name have "0 < count_list ys c" by simp
  then have "c \<in> set ys" by (metis count_list_0_iff less_numeral_extra(3))
  with name zs that show thesis by blast
qed

subsection \<open>One call of the mover\<close>

lemma prefix_same_length: "prefix a b \<Longrightarrow> length a = length b \<Longrightarrow> a = b"
  by (auto simp: prefix_def)

lemma is_child_length: "is_child d p \<Longrightarrow> length p = Suc (length d)"
  by (cases p rule: rev_cases) (auto simp: is_child_def)

lemma is_child_decomp: "is_child d p \<Longrightarrow> p = d @ [name_of p] \<and> name_of p \<noteq> []"
  by (cases p rule: rev_cases) (auto simp: is_child_def name_of_def)

lemma os_rename_frame:
  "os_rename tree src dst = Inr tree2 \<Longrightarrow> \<not> prefix src k \<Longrightarrow> \<not> prefix dst k \<Longrightarrow>
   lookup tree2 k = lookup tree k"
  by (auto simp: os_rename_def lookup_rekey split: option.splits node.splits if_splits)

lemma prefix_joinpath: "prefix (joinpath d n) k \<Longrightarrow> prefix d k"
  by (auto simp: joinpath_def prefix_def split: if_splits)

lemma shutil_move_frame:
  "shutil_move tree src dst = Inr tree2 \<Longrightarrow> \<not> prefix src k \<Longrightarrow> \<not> prefix dst k \<Longrightarrow>
   lookup tree2 k = lookup tree k"
  by (auto simp: shutil_move_def Let_def split: if_splits
      dest: os_rename_frame prefix_joinpath)

lemma organize_file_frame:
  assumes q: "is_child (downloads_path s) q" and k: "is_child (downloads_path s) k"
    and ne: "k \<noteq> q" and ex: "lookup (disk s) k = Some m"
  shows "lookup (disk (organize_file q s)) k = Some m"
proof -
  let ?cat = "classify (suffix_of (name_of q))"
  let ?folder = "joinpath (downloads_path s) ?cat"
  let ?dst = "joinpath ?folder (name_of q)"
  have lq: "length q = Suc (length (downloads_path s))" using q by (rule is_child_length)
  have lk: "length k = Suc (length (downloads_path s))" using k by (rule is_child_length)
  have nq: "\<not> prefix q k" using ne lq lk prefix_same_length [of q k] by auto
  have "name_of q \<noteq> []" using q by (simp add: is_child_decomp)
  then have "length ?dst = Suc (Suc (length (downloads_path s)))"
    by (simp add: joinpath_def classify_nonempty)
  then have nd: "\<not> prefix ?dst k" using lk by (auto dest: prefix_length_le)
  show ?thesis
  proof (cases "mkdir_exist_ok (disk s) ?folder")
    case (Inl e)
    then show ?thesis using ex by (simp add: organize_file_def Let_def)
  next
    case (Inr tree1)
    then have k1: "lookup tree1 k = Some m" using ex mkdir_exist_ok_lookup by blast
    show ?thesis
    proof (cases "shutil_move tree1 q ?dst")
      case (Inl e)
      with Inr k1 ex show ?thesis by (simp add: organize_file_def Let_def)
    next
      case r: (Inr tree2)
      then have "lookup tree2 k = lookup tree1 k" using nq nd by (rule shutil_move_frame)
      with Inr r k1 ex show ?thesis by (simp add: organize_file_def Let_def)
    qed
  qed
qed

lemma fold_organize_frame:
  assumes "\<forall>q \<in> set ps. is_child (downloads_path s) q" and "is_child (downloads_path s) k"
    and "k \<notin> set ps" and "lookup (disk s) k = Some m"
  shows "lookup (disk (fold organize_file ps s)) k = Some m"
  using assms
proof (induction ps arbitrary: s)
  case Nil
  then show ?case by simp
next
  case (Cons q ps)
  have "lookup (disk (organize_file q s)) k = Some m"
    using Cons.prems by (intro organize_file_frame) auto
  then show ?case
    using Cons.prems by (simp add: Cons.IH organize_file_downloads)
qed

lemma organize_file_log:
  "logfile (organize_file p s) = logfile s \<or>
   (\<exists>e. logfile (organize_file p s) = logfile s @ [LogError p e]) \<or>
   (\<exists>n c. logfile (organize_file p s) = logfile s @ [LogOrganized n c])"
  by (simp add: organize_file_def Let_def split: sum.splits)

lemma fold_organize_log: "\<exists>ex. logfile (fold organize_file ps s) = logfile s @ ex"
proof (induction ps arbitrary: s)
  case Nil
  then show ?case by simp
next
  case (Cons q ps)
  from organize_file_log [of q s] obtain e1 where "logfile (organize_file q s) = logfile s @ e1"
    by auto
  moreover from Cons [of "organize_file q s"] obtain e2 where
    "logfile (fold organize_file ps (organize_file q s)) = logfile (organize_file q s) @ e2" ..
  ultimately show ?case by simp
qed

subsection \<open>The sweep, entry by entry\<close>

lemma sweep_loop_append:
  "sweep_loop now (xs @ ys) s acc =
     (case sweep_loop now xs s acc of (s1, acc1) \<Rightarrow> sweep_loop now ys s1 acc1)"
  by (induction xs arbitrary: s acc) auto

lemma sweep_loop_reaches:
  assumes "sweep_loop now before s [] = (s1, done)" and "aged now (p, t)"
  shows "sweep_loop now (before @ (p, t) # rest) s [] =
         sweep_loop now rest (organize_file p s1) (done @ [p])"
  using assms by (simp add: sweep_loop_append aged_def)

lemma dict_get_mem: "dict_ok d \<Longrightarrow> (dict_get d k = Some v) = ((k, v) \<in> set d)"
  by (simp add: dict_get_def dict_ok_def)

lemma dict_get_none: "(dict_get d k = None) = (k \<notin> fst ` set d)"
  by (simp add: dict_get_def map_of_eq_None_iff)

lemma sweep_keeps_young:
  assumes "dict_ok d" and "dict_get d p = Some t" and "\<not> aged now (p, t)"
  shows "dict_get (filter (\<lambda>kv. \<not> aged now kv) d) p = Some t"
    and "p \<notin> set (map fst (filter (aged now) d))"
proof -
  from assms(1,2) have m: "(p, t) \<in> set d" by (simp add: dict_get_mem)
  with assms(3) have "(p, t) \<in> set (filter (\<lambda>kv. \<not> aged now kv) d)" by simp
  with dict_ok_filter [OF assms(1)] show "dict_get (filter (\<lambda>kv. \<not> aged now kv) d) p = Some t"
    by (simp add: dict_get_mem)
  show "p \<notin> set (map fst (filter (aged now) d))"
  proof
    assume "p \<in> set (map fst (filter (aged now) d))"
    then obtain t' where t': "(p, t') \<in> set d" "aged now (p, t')" by auto
    from assms(1) m t'(1) have "t' = t"
      unfolding dict_ok_def by (metis eq_key_imp_eq_value)
    with t'(2) assms(3) show False by simp
  qed
qed

lemma sweep_drops_aged:
  assumes "dict_ok d" and "(p, t) \<in> set d" and "aged now (p, t)"
  shows "dict_get (filter (\<lambda>kv. \<not> aged now kv) d) p = None"
proof -
  have "p \<notin> fst ` set (filter (\<lambda>kv. \<not> aged now kv) d)"
  proof
    assume "p \<in> fst ` set (filter (\<lambda>kv. \<not> aged now kv) d)"
    then obtain t' where t': "(p, t') \<in> set d" "\<not> aged now (p, t')" by auto
    from assms(1) t'(1) assms(2) have "t = t'"
      unfolding dict_ok_def by (metis eq_key_imp_eq_value)
    with t'(2) assms(3) show False by simp
  qed
  then show ?thesis by (simp add: dict_get_none)
qed

subsection \<open>Invariants of the reachable states\<close>

lemma scan_loop_downloads: "downloads_path (scan_loop ps s) = downloads_path s"
  by (induction ps s rule: scan_loop.induct) (auto split: option.splits node.splits)

lemma scan_loop_ok: "dict_ok (pending_files s) \<Longrightarrow> dict_ok (pending_files (scan_loop ps s))"
  by (induction ps s rule: scan_loop.induct) (auto split: option.splits node.splits simp: dict_set_ok)

lemma scan_loop_keys:
  "fst ` set (pending_files (scan_loop ps s)) \<subseteq> fst ` set (pending_files s) \<union> set ps"
proof (induction ps arbitrary: s)
  case Nil
  then show ?case by simp
next
  case (Cons file_path rest)
  show ?case
  proof (cases "lookup (disk s) file_path")
    case None
    with Cons [of s] show ?thesis by auto
  next
    case (Some n)
    show ?thesis
    proof (cases n)
      case (File c x)
      let ?s1 = "s\<lparr>pending_files := dict_set file_path c (pending_files s),
                   logfile := logfile s @ [LogAddedExisting (name_of file_path)]\<rparr>"
      have "scan_loop (file_path # rest) s = scan_loop rest ?s1"
        using Some File by simp
      moreover have "fst ` set (pending_files ?s1) = insert file_path (fst ` set (pending_files s))"
        by (simp add: dict_set_keys)
      ultimately show ?thesis using Cons [of ?s1] by auto
    next
      case Dir
      with Some Cons [of s] show ?thesis by auto
    qed
  qed
qed

lemma init_inv: "registry_inv (init downloads fs0 log0)"
proof -
  let ?s0 = "\<lparr>downloads_path = downloads, pending_files = [], disk = fs0,
              logfile = (log0 @ [LogStarted downloads]) @ [LogProcessingExisting]\<rparr>"
  have "fst ` set (pending_files (scan_loop (glob_star fs0 downloads) ?s0))
          \<subseteq> set (glob_star fs0 downloads)"
    using scan_loop_keys [of "glob_star fs0 downloads" ?s0] by simp
  moreover have "\<forall>q \<in> set (glob_star fs0 downloads). is_child downloads q"
    by (simp add: glob_star_def)
  moreover have "dict_ok (pending_files (scan_loop (glob_star fs0 downloads) ?s0))"
    by (rule scan_loop_ok) (simp add: dict_ok_def)
  ultimately show ?thesis
    by (auto simp: registry_inv_def init_def process_existing_files_def scan_loop_downloads)
qed

lemma on_created_inv:
  assumes "registry_inv s" and "is_child (downloads_path s) (src_path ev)"
  shows "registry_inv (on_created now ev s)"
proof (cases "is_directory ev")
  case True
  with assms(1) show ?thesis by (simp add: on_created_def)
next
  case False
  have "fst ` set (dict_set (src_path ev) now (pending_files s)) =
        insert (src_path ev) (fst ` set (pending_files s))"
    by (rule dict_set_keys)
  with assms False show ?thesis
    unfolding registry_inv_def on_created_def by (simp add: dict_set_ok)
qed

lemma process_pending_files_inv:
  assumes "registry_inv s" and "process_pending_files now s = Inr s'"
  shows "registry_inv s'"
proof -
  from assms(1) have ok: "dict_ok (pending_files s)" by (simp add: registry_inv_def)
  from assms(2) have s': "s' = (fold organize_file (organized_paths now s) s)
            \<lparr>pending_files := filter (\<lambda>kv. \<not> aged now kv) (pending_files s)\<rparr>"
    by (simp add: process_pending_files_eq [OF ok])
  show ?thesis
    using assms(1) unfolding s' registry_inv_def
    by (auto simp: dict_ok_filter fold_organize_downloads)
qed

lemma reachable_inv: "reachable s \<Longrightarrow> registry_inv s"
proof (induction rule: reachable.induct)
  case (start downloads fs0 log0)
  show ?case by (rule init_inv)
next
  case (notify s ev now)
  then show ?case by (simp add: on_created_inv)
next
  case (sweep s now s')
  then show ?case by (simp add: process_pending_files_inv)
next
  case (outside s fs')
  then show ?case by (simp add: registry_inv_def)
qed

lemma scan_loop_get:
  "dict_get (pending_files (scan_loop ps s)) q =
     (if q \<in> set ps \<and> is_file (disk s) q then map_option st_ctime (lookup (disk s) q)
      else dict_get (pending_files s) q)"
proof (induction ps arbitrary: s)
  case Nil
  then show ?case by simp
next
  case (Cons file_path rest)
  show ?case
  proof (cases "lookup (disk s) file_path")
    case None
    then have "\<not> is_file (disk s) file_path" by (simp add: is_file_def)
    with None Cons [of s] show ?thesis by auto
  next
    case (Some n)
    show ?thesis
    proof (cases n)
      case (File c x)
      let ?s1 = "s\<lparr>pending_files := dict_set file_path c (pending_files s),
                   logfile := logfile s @ [LogAddedExisting (name_of file_path)]\<rparr>"
      have "scan_loop (file_path # rest) s = scan_loop rest ?s1"
        using Some File by simp
      moreover have "is_file (disk s) file_path" using Some File by (simp add: is_file_def)
      ultimately show ?thesis
        using Cons [of ?s1] Some File by (auto simp: dict_get_set)
    next
      case Dir
      with Some have "\<not> is_file (disk s) file_path" by (simp add: is_file_def)
      with Dir Some Cons [of s] show ?thesis by auto
    qed
  qed
qed

lemma glob_star_mem:
  "is_dir tree d \<Longrightarrow> (p \<in> set (glob_star tree d)) = (is_child d p \<and> exists_path tree p)"
  by (auto simp: glob_star_def exists_path_def lookup_def map_of_eq_None_iff)



lemma ex_start_reachable: "reachable ex_start"
  unfolding ex_start_def by (rule reachable.start)

subsection \<open>A successful move\<close>



subsection \<open>The moves of a whole sweep\<close>












section \<open>The classifier\<close>



text \<open>
  Claim C10. For a file name with more than one dot, the category that \<^verbatim>\<open>organize_file\<close>
  computes (the classification of \<^verbatim>\<open>file.suffix\<close>) is the classification of the substring
  that starts at the last dot: nothing before the last dot has a part in it.
\<close>

theorem final_extension_decides:
  assumes "1 < count_list name (CHR ''.'')"
  shows "classify (suffix_of name) = classify (drop (nat (rfind name (CHR ''.''))) name)"
proof -
  from assms obtain stem ext where name: "name = stem @ CHR ''.'' # ext"
    and ext: "CHR ''.'' \<notin> set ext" and stem: "CHR ''.'' \<in> set stem"
    by (rule more_than_one_dot)
  from stem have ne: "stem \<noteq> []" by auto
  have r: "rfind name (CHR ''.'') = int (length stem)"
    unfolding name using ext by (rule rfind_last)
  have d: "drop (nat (rfind name (CHR ''.''))) name = CHR ''.'' # ext"
    unfolding r by (simp add: name)
  show ?thesis
  proof (cases "ext = []")
    case True
    with ne ext have "suffix_of name = []" by (simp add: name suffix_of_last_dot)
    with d True show ?thesis by (simp add: classify_dot)
  next
    case False
    with ne ext have "suffix_of name = CHR ''.'' # ext" by (simp add: name suffix_of_last_dot)
    with d show ?thesis by simp
  qed
qed

theorem final_extension_decides_witness:
  "1 < count_list ''archive.tar.gz'' (CHR ''.'') \<and>
   classify (suffix_of ''archive.tar.gz'') = classify ''.gz''"
proof -
  have h: "1 < count_list ''archive.tar.gz'' (CHR ''.'')" by code_simp
  have d: "drop (nat (rfind ''archive.tar.gz'' (CHR ''.''))) ''archive.tar.gz'' = ''.gz''"
    by code_simp
  from final_extension_decides [OF h] d h show ?thesis by simp
qed

section \<open>The registry and the sweep\<close>

text \<open>
  Claim C1. In every state the program reaches, a sweep at time \<open>now\<close> leaves alone every
  entry \<open>(p, t)\<close> of the registry with \<open>now - t\<close> less than 24 hours: the sweep ends
  without an exception, \<^verbatim>\<open>organize_file\<close> is not called on \<open>p\<close>, the registry still maps
  \<open>p\<close> to \<open>t\<close> afterwards, and a file that is at \<open>p\<close> before the sweep is the same file at
  \<open>p\<close> after it. So no file is moved before its grace period has passed.
\<close>

theorem young_entry_is_left_alone:
  assumes "reachable s" and "dict_get (pending_files s) p = Some t"
    and "now - t < timedelta_hours 24"
  shows "\<exists>s'. process_pending_files now s = Inr s' \<and>
              p \<notin> set (organized_paths now s) \<and>
              dict_get (pending_files s') p = Some t \<and>
              (exists_path (disk s) p \<longrightarrow> lookup (disk s') p = lookup (disk s) p)"
proof -
  from assms(1) have inv: "registry_inv s" by (rule reachable_inv)
  then have ok: "dict_ok (pending_files s)" by (simp add: registry_inv_def)
  from assms(3) have young: "\<not> aged now (p, t)" by (simp add: aged_def)
  let ?s1 = "fold organize_file (organized_paths now s) s"
  let ?s' = "?s1\<lparr>pending_files := filter (\<lambda>kv. \<not> aged now kv) (pending_files s)\<rparr>"
  have run: "process_pending_files now s = Inr ?s'" using ok by (rule process_pending_files_eq)
  have notin: "p \<notin> set (organized_paths now s)"
    using sweep_keeps_young(2) [OF ok assms(2) young] by (simp add: organized_paths_eq)
  have kept: "dict_get (pending_files ?s') p = Some t"
    using sweep_keeps_young(1) [OF ok assms(2) young] by simp
  have frame: "lookup (disk ?s') p = lookup (disk s) p" if "exists_path (disk s) p"
  proof -
    from that obtain m where m: "lookup (disk s) p = Some m" by (auto simp: exists_path_def)
    from ok assms(2) have "p \<in> fst ` set (pending_files s)"
      by (force simp: dict_get_mem)
    with inv have child: "is_child (downloads_path s) p"
      unfolding registry_inv_def by blast
    have "\<forall>q \<in> set (organized_paths now s). is_child (downloads_path s) q"
      using inv by (auto simp: organized_paths_eq registry_inv_def)
    then have "lookup (disk ?s1) p = Some m"
      using child notin m by (rule fold_organize_frame)
    with m show ?thesis by simp
  qed
  from run notin kept frame show ?thesis by blast
qed

theorem young_entry_is_left_alone_witness:
  "reachable ex_start \<and>
   dict_get (pending_files ex_start) ex_photo = Some (timedelta_hours 24) \<and>
   timedelta_hours 25 - timedelta_hours 24 < timedelta_hours 24 \<and>
   exists_path (disk ex_start) ex_photo \<and>
   (\<exists>s'. process_pending_files (timedelta_hours 25) ex_start = Inr s' \<and>
         ex_photo \<notin> set (organized_paths (timedelta_hours 25) ex_start) \<and>
         dict_get (pending_files s') ex_photo = Some (timedelta_hours 24) \<and>
         lookup (disk s') ex_photo = lookup (disk ex_start) ex_photo)"
proof -
  have h1: "reachable ex_start" by (rule ex_start_reachable)
  have h2: "dict_get (pending_files ex_start) ex_photo = Some (timedelta_hours 24)"
    by code_simp
  have h3: "timedelta_hours 25 - timedelta_hours 24 < timedelta_hours 24"
    by (simp add: timedelta_hours_def)
  have h4: "exists_path (disk ex_start) ex_photo" by code_simp
  from young_entry_is_left_alone [OF h1 h2 h3] h1 h2 h3 h4 show ?thesis by blast
qed

text \<open>
  Claim C2, as the code has it. \<^verbatim>\<open>on_created\<close> assigns \<^verbatim>\<open>datetime.now()\<close> to the path
  whether or not the path is queued already. For a path that is queued, a second
  notification at time \<open>now\<close> replaces its timestamp by \<open>now\<close>; the path keeps its place,
  the registry keeps the same paths, each once, and the timestamps of the other paths do
  not change. \<^verbatim>\<open>process_existing_files\<close> assigns in the same way: run after the
  notification, it replaces the timestamp of a regular file directly under the watched
  directory by the \<^verbatim>\<open>st_ctime\<close> of the file. (\<^verbatim>\<open>main\<close> runs it once, from \<^verbatim>\<open>__init__\<close>, on
  the empty registry, before the observer is started.)
\<close>

theorem repeated_insert_overwrites:
  assumes "dict_ok (pending_files s)" and "dict_get (pending_files s) (src_path ev) = Some t"
    and "\<not> is_directory ev"
  shows "dict_get (pending_files (on_created now ev s)) (src_path ev) = Some now \<and>
         dict_ok (pending_files (on_created now ev s)) \<and>
         map fst (pending_files (on_created now ev s)) = map fst (pending_files s) \<and>
         (\<forall>q. q \<noteq> src_path ev \<longrightarrow>
            dict_get (pending_files (on_created now ev s)) q = dict_get (pending_files s) q) \<and>
         (is_dir (disk s) (downloads_path s) \<and> is_child (downloads_path s) (src_path ev) \<and>
          lookup (disk s) (src_path ev) = Some (File c x) \<longrightarrow>
            dict_get (pending_files (process_existing_files (on_created now ev s))) (src_path ev)
              = Some c)"
proof -
  from assms(1,2) have "src_path ev \<in> fst ` set (pending_files s)"
    by (force simp: dict_get_mem)
  then have "map fst (dict_set (src_path ev) now (pending_files s)) = map fst (pending_files s)"
    by (rule dict_set_present_keys)
  with assms(1,3) have first: "dict_get (pending_files (on_created now ev s)) (src_path ev) = Some now \<and>
         dict_ok (pending_files (on_created now ev s)) \<and>
         map fst (pending_files (on_created now ev s)) = map fst (pending_files s) \<and>
         (\<forall>q. q \<noteq> src_path ev \<longrightarrow>
            dict_get (pending_files (on_created now ev s)) q = dict_get (pending_files s) q)"
    by (simp add: on_created_def dict_get_set dict_set_ok)
  have scan: "dict_get (pending_files (process_existing_files (on_created now ev s))) (src_path ev)
              = Some c"
    if d: "is_dir (disk s) (downloads_path s)" and ch: "is_child (downloads_path s) (src_path ev)"
      and f: "lookup (disk s) (src_path ev) = Some (File c x)"
  proof -
    let ?s1 = "on_created now ev s"
    have s1: "disk ?s1 = disk s" "downloads_path ?s1 = downloads_path s"
      by (simp_all add: on_created_def)
    from f have "is_file (disk s) (src_path ev)" and "exists_path (disk s) (src_path ev)"
      by (simp_all add: is_file_def exists_path_def)
    with d ch have "src_path ev \<in> set (glob_star (disk s) (downloads_path s))"
      by (simp add: glob_star_mem)
    with f \<open>is_file (disk s) (src_path ev)\<close> show ?thesis
      by (simp add: process_existing_files_def scan_loop_get s1)
  qed
  from first scan show ?thesis by blast
qed

theorem repeated_insert_overwrites_witness:
  "dict_ok (pending_files ex_start) \<and>
   dict_get (pending_files ex_start) (src_path ex_event) = Some (timedelta_hours 24) \<and>
   \<not> is_directory ex_event \<and>
   dict_get (pending_files (on_created (timedelta_hours 26) ex_event ex_start)) (src_path ex_event)
     = Some (timedelta_hours 26) \<and>
   map fst (pending_files (on_created (timedelta_hours 26) ex_event ex_start))
     = map fst (pending_files ex_start) \<and>
   dict_get (pending_files (on_created (timedelta_hours 26) ex_event ex_start)) ex_report
     = dict_get (pending_files ex_start) ex_report \<and>
   is_dir (disk ex_start) (downloads_path ex_start) \<and>
   is_child (downloads_path ex_start) (src_path ex_event) \<and>
   lookup (disk ex_start) (src_path ex_event) = Some (File (timedelta_hours 24) ''png'') \<and>
   dict_get (pending_files (process_existing_files (on_created (timedelta_hours 26) ex_event ex_start)))
     (src_path ex_event) = Some (timedelta_hours 24)"
proof -
  have h1: "dict_ok (pending_files ex_start)" by code_simp
  have h4: "is_dir (disk ex_start) (downloads_path ex_start)" by code_simp
  have h5: "is_child (downloads_path ex_start) (src_path ex_event)" by code_simp
  have h6: "lookup (disk ex_start) (src_path ex_event) = Some (File (timedelta_hours 24) ''png'')"
    by code_simp
  have h2: "dict_get (pending_files ex_start) (src_path ex_event) = Some (timedelta_hours 24)"
    by code_simp
  have h3: "\<not> is_directory ex_event" by (simp add: ex_event_def)
  have ne: "ex_report \<noteq> src_path ex_event"
    by (simp add: ex_event_def ex_report_def ex_photo_def)
  from repeated_insert_overwrites [OF h1 h2 h3, of "timedelta_hours 26" "timedelta_hours 24" "''png''"]
    ne h1 h2 h3 h4 h5 h6
  show ?thesis by blast
qed

text \<open>
  The claim as the specification states it (the second insertion is a no-op and the first
  timestamp stays) fails: \<open>photo.png\<close> is queued with the timestamp of hour 24, and after
  a second notification at hour 26 the registry maps it to hour 26.
\<close>

theorem repeated_insert_counterexample:
  "dict_get (pending_files ex_start) ex_photo = Some (timedelta_hours 24) \<and>
   dict_get (pending_files (on_created (timedelta_hours 26) ex_event ex_start)) ex_photo
     = Some (timedelta_hours 26) \<and>
   timedelta_hours 26 \<noteq> timedelta_hours 24"
proof -
  have a: "dict_get (pending_files ex_start) ex_photo = Some (timedelta_hours 24)"
    by code_simp
  have b: "dict_get (pending_files (on_created (timedelta_hours 26) ex_event ex_start)) ex_photo
     = Some (timedelta_hours 26)"
    by code_simp
  have c: "timedelta_hours 26 \<noteq> timedelta_hours 24" by (simp add: timedelta_hours_def)
  from a b c show ?thesis by simp
qed

text \<open>
  Claim C3, as the code has it. \<^verbatim>\<open>process_pending_files\<close> puts a path on
  \<^verbatim>\<open>files_to_remove\<close> right after the call of \<^verbatim>\<open>organize_file\<close>, which catches every
  exception and returns nothing. When the sweep reaches an entry that is 24 hours old and
  the call for it fails (it logs an error), the sweep goes on with the next entry, ends
  without an exception, the error is in the log, and the entry is removed from the
  registry like every other entry the sweep has tried: no later sweep calls
  \<^verbatim>\<open>organize_file\<close> on it.
\<close>

theorem failed_move_is_dropped:
  assumes "dict_ok (pending_files s)"
    and "pending_files s = before @ (p, t) # rest"
    and "now - t \<ge> timedelta_hours 24"
    and "sweep_loop now before s [] = (s1, done)"
    and "logfile (organize_file p s1) = logfile s1 @ [LogError p e]"
  shows "sweep_loop now (pending_files s) s [] =
           sweep_loop now rest (organize_file p s1) (done @ [p]) \<and>
         (\<exists>s'. process_pending_files now s = Inr s' \<and>
               LogError p e \<in> set (logfile s') \<and>
               dict_get (pending_files s') p = None \<and>
               (\<forall>now'. p \<notin> set (organized_paths now' s')))"
proof -
  from assms(3) have aged: "aged now (p, t)" by (simp add: aged_def)
  have step: "sweep_loop now (pending_files s) s [] =
           sweep_loop now rest (organize_file p s1) (done @ [p])"
    unfolding assms(2) using assms(4) aged by (rule sweep_loop_reaches)
  let ?ps = "organized_paths now s"
  let ?s' = "(fold organize_file ?ps s)
              \<lparr>pending_files := filter (\<lambda>kv. \<not> aged now kv) (pending_files s)\<rparr>"
  have run: "process_pending_files now s = Inr ?s'"
    using assms(1) by (rule process_pending_files_eq)
  have mem: "(p, t) \<in> set (pending_files s)" by (simp add: assms(2))
  have gone: "dict_get (pending_files ?s') p = None"
    using sweep_drops_aged [OF assms(1) mem aged] by simp
  then have never: "p \<notin> set (organized_paths now' ?s')" for now'
    by (auto simp: organized_paths_eq dict_get_none)
  have s1: "s1 = fold organize_file (map fst (filter (aged now) before)) s"
    using assms(4) by (auto simp: sweep_loop_eq)
  have "fold organize_file ?ps s =
        fold organize_file (map fst (filter (aged now) rest)) (organize_file p s1)"
    using aged by (simp add: organized_paths_eq assms(2) s1)
  moreover obtain ex where
    "logfile (fold organize_file (map fst (filter (aged now) rest)) (organize_file p s1)) =
       logfile (organize_file p s1) @ ex"
    using fold_organize_log by blast
  ultimately have "LogError p e \<in> set (logfile ?s')" by (simp add: assms(5))
  with step run gone never show ?thesis by blast
qed

theorem failed_move_is_dropped_witness:
  "dict_ok (pending_files ex_blocked) \<and>
   pending_files ex_blocked =
     [] @ (ex_report, 0) # [([''home'', ''user'', ''Downloads'', ''documents''], timedelta_hours 24)] \<and>
   timedelta_hours 25 - 0 \<ge> timedelta_hours 24 \<and>
   sweep_loop (timedelta_hours 25) [] ex_blocked [] = (ex_blocked, []) \<and>
   logfile (organize_file ex_report ex_blocked) =
     logfile ex_blocked @ [LogError ex_report FileExistsError] \<and>
   (\<exists>s'. process_pending_files (timedelta_hours 25) ex_blocked = Inr s' \<and>
         LogError ex_report FileExistsError \<in> set (logfile s') \<and>
         dict_get (pending_files s') ex_report = None \<and>
         ex_report \<notin> set (organized_paths (timedelta_hours 27) s'))"
proof -
  have h1: "dict_ok (pending_files ex_blocked)" by code_simp
  have h2: "pending_files ex_blocked =
     [] @ (ex_report, 0) # [([''home'', ''user'', ''Downloads'', ''documents''], timedelta_hours 24)]"
    by code_simp
  have h3: "timedelta_hours 25 - 0 \<ge> timedelta_hours 24" by (simp add: timedelta_hours_def)
  have h4: "sweep_loop (timedelta_hours 25) [] ex_blocked [] = (ex_blocked, [])" by simp
  have h5: "logfile (organize_file ex_report ex_blocked) =
     logfile ex_blocked @ [LogError ex_report FileExistsError]"
    by code_simp
  from failed_move_is_dropped [OF h1 h2 h3 h4 h5] h1 h2 h3 h4 h5 show ?thesis by blast
qed

text \<open>
  The claim as the specification states it (a failed move leaves the entry in the
  registry) fails: with a regular file named \<open>documents\<close> in the watched directory,
  creating the folder for \<open>report.PDF\<close> raises \<^verbatim>\<open>FileExistsError\<close>; the sweep logs the
  error, leaves the file where it is, and removes the entry.
\<close>

theorem failed_move_counterexample:
  "dict_get (pending_files ex_blocked) ex_report = Some 0 \<and>
   exists_path (disk ex_blocked) ex_report \<and>
   process_pending_files (timedelta_hours 25) ex_blocked =
     Inr \<lparr>downloads_path = ex_downloads,
          pending_files = [([''home'', ''user'', ''Downloads'', ''documents''], timedelta_hours 24)],
          disk = ex_blocked_disk,
          logfile = [LogStarted ex_downloads, LogProcessingExisting,
                     LogAddedExisting ''report.PDF'', LogAddedExisting ''documents'',
                     LogError ex_report FileExistsError]\<rparr>"
proof -
  have a: "dict_get (pending_files ex_blocked) ex_report = Some 0" by code_simp
  have b: "exists_path (disk ex_blocked) ex_report" by code_simp
  have c: "process_pending_files (timedelta_hours 25) ex_blocked =
     Inr \<lparr>downloads_path = ex_downloads,
          pending_files = [([''home'', ''user'', ''Downloads'', ''documents''], timedelta_hours 24)],
          disk = ex_blocked_disk,
          logfile = [LogStarted ex_downloads, LogProcessingExisting,
                     LogAddedExisting ''report.PDF'', LogAddedExisting ''documents'',
                     LogError ex_report FileExistsError]\<rparr>"
    by code_simp
  from a b c show ?thesis by simp
qed

text \<open>
  Claim C7. When the sweep reaches an entry that is 24 hours old and no file is at its path
  any more, the call of \<^verbatim>\<open>organize_file\<close> changes nothing (no file is touched, nothing is
  logged), the sweep goes on with the next entry and ends without an exception, and the
  entry is removed from the registry.
\<close>

theorem vanished_file_is_dropped:
  assumes "dict_ok (pending_files s)"
    and "pending_files s = before @ (p, t) # rest"
    and "now - t \<ge> timedelta_hours 24"
    and "sweep_loop now before s [] = (s1, done)"
    and "\<not> exists_path (disk s1) p"
  shows "organize_file p s1 = s1 \<and>
         sweep_loop now (pending_files s) s [] = sweep_loop now rest s1 (done @ [p]) \<and>
         (\<exists>s'. process_pending_files now s = Inr s' \<and>
               dict_get (pending_files s') p = None)"
proof -
  from assms(3) have aged: "aged now (p, t)" by (simp add: aged_def)
  have noop: "organize_file p s1 = s1" using assms(5) by (simp add: organize_file_def)
  have "sweep_loop now (pending_files s) s [] =
           sweep_loop now rest (organize_file p s1) (done @ [p])"
    unfolding assms(2) using assms(4) aged by (rule sweep_loop_reaches)
  with noop have step: "sweep_loop now (pending_files s) s [] = sweep_loop now rest s1 (done @ [p])"
    by simp
  let ?s' = "(fold organize_file (organized_paths now s) s)
              \<lparr>pending_files := filter (\<lambda>kv. \<not> aged now kv) (pending_files s)\<rparr>"
  have run: "process_pending_files now s = Inr ?s'"
    using assms(1) by (rule process_pending_files_eq)
  have mem: "(p, t) \<in> set (pending_files s)" by (simp add: assms(2))
  have gone: "dict_get (pending_files ?s') p = None"
    using sweep_drops_aged [OF assms(1) mem aged] by simp
  from noop step run gone show ?thesis by blast
qed

theorem vanished_file_is_dropped_witness:
  "dict_ok (pending_files ex_vanished) \<and>
   pending_files ex_vanished = [] @ (ex_report, 0) # [(ex_photo, timedelta_hours 24)] \<and>
   timedelta_hours 25 - 0 \<ge> timedelta_hours 24 \<and>
   sweep_loop (timedelta_hours 25) [] ex_vanished [] = (ex_vanished, []) \<and>
   \<not> exists_path (disk ex_vanished) ex_report \<and>
   organize_file ex_report ex_vanished = ex_vanished \<and>
   (\<exists>s'. process_pending_files (timedelta_hours 25) ex_vanished = Inr s' \<and>
         dict_get (pending_files s') ex_report = None)"
proof -
  have h1: "dict_ok (pending_files ex_vanished)" by code_simp
  have h2: "pending_files ex_vanished = [] @ (ex_report, 0) # [(ex_photo, timedelta_hours 24)]"
    by code_simp
  have h3: "timedelta_hours 25 - 0 \<ge> timedelta_hours 24" by (simp add: timedelta_hours_def)
  have h4: "sweep_loop (timedelta_hours 25) [] ex_vanished [] = (ex_vanished, [])" by simp
  have h5: "\<not> exists_path (disk ex_vanished) ex_report" by code_simp
  from vanished_file_is_dropped [OF h1 h2 h3 h4 h5] h1 h2 h3 h4 h5 show ?thesis by blast
qed



section \<open>The mover\<close>







end
